theory Spec2Isabelle
  imports Complex_Main "HOL-Library.Word"
begin

unbundle bit_operations_syntax

section \<open>Bytes and the CRC-8 of the AHT21 frame\<close>

text \<open>
  A Python \<^verbatim>\<open>bytes\<close> object is a list of 8-bit words; an element read out of it
  (\<^verbatim>\<open>data[i]\<close>, or the loop variable of \<^verbatim>\<open>for byte in data\<close>) is a Python
  integer between 0 and 255, \<open>uint\<close> of the word. Python integers are unbounded and
  are modelled by \<open>int\<close>.
\<close>

type_synonym byte = "8 word"

text \<open>
  \<^verbatim>\<open>AHT21._calculate_crc8\<close>, aht21.py lines 225 to 234. The accumulator \<^verbatim>\<open>crc\<close> is
  a Python integer: inside the eight shifts it is not masked and grows beyond 8 bits;
  the mask \<^verbatim>\<open>crc &= 0xFF\<close> is applied once per byte.
\<close>

definition crc8_shift :: "int \<Rightarrow> int" where
  "crc8_shift crc =
     (if crc AND 0x80 \<noteq> 0 then push_bit 1 crc XOR 0x31 else push_bit 1 crc)"

primrec crc8_shifts :: "nat \<Rightarrow> int \<Rightarrow> int" where
  "crc8_shifts 0 crc = crc"
| "crc8_shifts (Suc n) crc = crc8_shifts n (crc8_shift crc)"

definition crc8_byte :: "int \<Rightarrow> byte \<Rightarrow> int" where
  "crc8_byte crc b = crc8_shifts 8 (crc XOR uint b) AND 0xFF"

definition calculate_crc8 :: "byte list \<Rightarrow> int" where
  "calculate_crc8 data = foldl crc8_byte 0xFF (take 6 data)"

text \<open>
  The reference CRC-8 in the words of the specification: an 8-bit register seeded with
  0xFF; each byte is XORed into the register, followed by eight shift steps, each of
  which XORs the polynomial 0x31 into the shifted register when the high bit of the
  register was set. The register type \<open>byte\<close> keeps it at 8 bits.
\<close>

definition reference_shift :: "byte \<Rightarrow> byte" where
  "reference_shift r = (if bit r 7 then push_bit 1 r XOR 0x31 else push_bit 1 r)"

definition reference_byte :: "byte \<Rightarrow> byte \<Rightarrow> byte" where
  "reference_byte r b = (reference_shift ^^ 8) (r XOR b)"

definition reference_crc8 :: "byte list \<Rightarrow> byte" where
  "reference_crc8 bs = foldl reference_byte 0xFF bs"

section \<open>The transport: an I2C bus with a clock\<close>

text \<open>
  The bus (\<^verbatim>\<open>machine.I2C\<close>) and the clock (\<^verbatim>\<open>time\<close>) are outside the drivers. A bus
  is given by the outcomes it will produce: \<open>script\<close> lists, for each coming bus
  operation, the milliseconds it takes and its outcome, \<open>NoAck\<close> (MicroPython raises
  OSError) or \<open>Ack\<close> with the bytes a read delivers. A bus whose script is used up
  answers \<open>NoAck\<close> from then on. \<open>trace\<close> records what the driver did, oldest first,
  and \<open>ticks\<close> is the clock in milliseconds (taken as monotonic: the wrap-around of
  \<^verbatim>\<open>ticks_ms\<close>, which \<^verbatim>\<open>ticks_diff\<close> compensates, is left out).
\<close>

datatype reply = NoAck | Ack "byte list"

datatype event =
    Writeto nat "byte list"
  | Readfrom nat nat
  | Writeto_mem nat nat "byte list"
  | Readfrom_mem nat nat nat
  | Sleep_ms nat

record i2c =
  script :: "(nat \<times> reply) list"
  trace :: "event list"
  ticks :: nat

text \<open>Every exception class that the two drivers raise or let through.\<close>

datatype error =
    OSError
  | AHT21CalibrationError
  | AHT21CRCError
  | AHT21TimeoutError
  | ENS160InitError
  | ENS160CommunicationError

text \<open>
  A method is a function from the state before the call to its outcome and the state
  after it: \<open>Inr\<close> a returned value, \<open>Inl\<close> a raised exception.
\<close>

type_synonym ('s, 'a) prog = "'s \<Rightarrow> (error + 'a) \<times> 's"

definition succeed :: "'a \<Rightarrow> ('s, 'a) prog" where
  "succeed x s = (Inr x, s)"

definition raise :: "error \<Rightarrow> ('s, 'a) prog" where
  "raise e s = (Inl e, s)"

text \<open>Sequencing: an exception of the first statement skips the rest.\<close>

definition andthen :: "('s, 'a) prog \<Rightarrow> ('a \<Rightarrow> ('s, 'b) prog) \<Rightarrow> ('s, 'b) prog" where
  "andthen m f s = (case m s of (Inl e, s') \<Rightarrow> (Inl e, s') | (Inr x, s') \<Rightarrow> f x s')"

text \<open>
  \<^verbatim>\<open>try: m  except (E1, ...): h\<close>. None of the driver's exception classes derives
  from another one of the list above, so a clause catches exactly the classes it names.
\<close>

definition try_except :: "('s, 'a) prog \<Rightarrow> error list \<Rightarrow> (error \<Rightarrow> ('s, 'a) prog) \<Rightarrow> ('s, 'a) prog" where
  "try_except m caught h s =
     (case m s of
        (Inl e, s') \<Rightarrow> if e \<in> set caught then h e s' else (Inl e, s')
      | (Inr x, s') \<Rightarrow> (Inr x, s'))"

text \<open>
  \<^verbatim>\<open>try: m  finally: c\<close>. The clean-up runs on every exit of \<open>m\<close>; an exception of
  the clean-up replaces the outcome of \<open>m\<close>.
\<close>

definition try_finally :: "('s, 'a) prog \<Rightarrow> ('s, unit) prog \<Rightarrow> ('s, 'a) prog" where
  "try_finally m c s =
     (case m s of
        (r, s') \<Rightarrow> (case c s' of (Inl e, s'') \<Rightarrow> (Inl e, s'') | (Inr u, s'') \<Rightarrow> (r, s'')))"

text \<open>One bus operation: it is recorded, and takes the next outcome of the script.\<close>

definition transfer :: "event \<Rightarrow> 'a i2c_scheme \<Rightarrow> reply \<times> 'a i2c_scheme" where
  "transfer e s =
     (case script s of
        [] \<Rightarrow> (NoAck, s\<lparr>trace := trace s @ [e]\<rparr>)
      | (d, r) # rest \<Rightarrow>
          (r, s\<lparr>script := rest, trace := trace s @ [e], ticks := ticks s + d\<rparr>))"

text \<open>
  The four bus methods the drivers use. A read of \<open>n\<close> bytes returns exactly \<open>n\<close>
  bytes, as \<^verbatim>\<open>readfrom\<close> and \<^verbatim>\<open>readfrom_mem\<close> do: the scripted payload is cut or
  zero-filled to that length.
\<close>

definition writeto :: "nat \<Rightarrow> byte list \<Rightarrow> ('a i2c_scheme, unit) prog" where
  "writeto addr buf s =
     (case transfer (Writeto addr buf) s of
        (NoAck, s') \<Rightarrow> (Inl OSError, s')
      | (Ack bs, s') \<Rightarrow> (Inr (), s'))"

definition readfrom :: "nat \<Rightarrow> nat \<Rightarrow> ('a i2c_scheme, byte list) prog" where
  "readfrom addr n s =
     (case transfer (Readfrom addr n) s of
        (NoAck, s') \<Rightarrow> (Inl OSError, s')
      | (Ack bs, s') \<Rightarrow> (Inr (take n (bs @ replicate n 0)), s'))"

definition writeto_mem :: "nat \<Rightarrow> nat \<Rightarrow> byte list \<Rightarrow> ('a i2c_scheme, unit) prog" where
  "writeto_mem addr reg buf s =
     (case transfer (Writeto_mem addr reg buf) s of
        (NoAck, s') \<Rightarrow> (Inl OSError, s')
      | (Ack bs, s') \<Rightarrow> (Inr (), s'))"

definition readfrom_mem :: "nat \<Rightarrow> nat \<Rightarrow> nat \<Rightarrow> ('a i2c_scheme, byte list) prog" where
  "readfrom_mem addr reg n s =
     (case transfer (Readfrom_mem addr reg n) s of
        (NoAck, s') \<Rightarrow> (Inl OSError, s')
      | (Ack bs, s') \<Rightarrow> (Inr (take n (bs @ replicate n 0)), s'))"

definition sleep_ms :: "nat \<Rightarrow> ('a i2c_scheme, unit) prog" where
  "sleep_ms n s = (Inr (), s\<lparr>trace := trace s @ [Sleep_ms n], ticks := ticks s + n\<rparr>)"

definition ticks_ms :: "('a i2c_scheme, int) prog" where
  "ticks_ms s = (Inr (int (ticks s)), s)"

definition ticks_diff :: "int \<Rightarrow> int \<Rightarrow> int" where
  "ticks_diff t1 t0 = t1 - t0"

text \<open>A driver instance holds the bus it was given and the device address.\<close>

record driver = i2c +
  address :: nat

section \<open>The AHT21 driver (aht21.py)\<close>

definition read_status :: "(driver, int) prog" where
  "read_status s =
     andthen (writeto (address s) [0x71]) (\<lambda>u.
     andthen (readfrom (address s) 1) (\<lambda>bs.
     succeed (uint (bs ! 0)))) s"

definition is_busy :: "(driver, bool) prog" where
  "is_busy = andthen read_status (\<lambda>status. succeed (status AND 0x80 \<noteq> 0))"




text \<open>
  The busy poll of step 3, \<^verbatim>\<open>while self._is_busy(): ...\<close>. Every round that does
  not leave the loop sleeps 5 ms, so the clock bounds the number of rounds.
\<close>

function wait_while_busy :: "int \<Rightarrow> (driver, unit) prog" where
  "wait_while_busy start_time s =
     (case is_busy s of
        (Inl e, s') \<Rightarrow> (Inl e, s')
      | (Inr busy, s') \<Rightarrow>
          if busy then
            (if ticks_diff (int (ticks s')) start_time > 150 then (Inl AHT21TimeoutError, s')
             else wait_while_busy start_time (snd (sleep_ms 5 s')))
          else (Inr (), s'))"
  by pat_completeness auto
termination
proof (relation "measure (\<lambda>(start_time, s). nat (151 + start_time - int (ticks s)))", goal_cases)
  case 1
  show ?case by simp
next
  case (2 start_time s x s' busy)
  have "ticks s \<le> ticks s'"
    using 2(1)
    by (auto simp: is_busy_def read_status_def andthen_def succeed_def writeto_def readfrom_def
        transfer_def split: prod.splits sum.splits list.splits reply.splits)
  with 2 show ?case
    by (simp add: sleep_ms_def ticks_diff_def)
qed

text \<open>Steps 6 and 7: the two 20-bit raw values and the physical units.\<close>

definition raw_humidity :: "byte list \<Rightarrow> int" where
  "raw_humidity data =
     push_bit 12 (uint (data ! 1)) OR push_bit 4 (uint (data ! 2)) OR drop_bit 4 (uint (data ! 3))"

definition raw_temperature :: "byte list \<Rightarrow> int" where
  "raw_temperature data =
     push_bit 16 (uint (data ! 3) AND 0x0F) OR push_bit 8 (uint (data ! 4)) OR uint (data ! 5)"

text \<open>
  One pass through the body of the \<^verbatim>\<open>try\<close> (steps 1 to 7). Python floats are
  modelled by real numbers: the result is the exact value of the formula, which the
  float result approximates.
\<close>

definition measure_once :: "(driver, real \<times> real) prog" where
  "measure_once s =
     andthen (writeto (address s) [0xAC, 0x33, 0x00]) (\<lambda>u.
     andthen (sleep_ms 80) (\<lambda>u.
     andthen ticks_ms (\<lambda>start_time.
     andthen (wait_while_busy start_time) (\<lambda>u.
     andthen (readfrom (address s) 7) (\<lambda>data.
       let calculated_crc = calculate_crc8 (take 6 data) in
       if calculated_crc \<noteq> uint (data ! 6) then raise AHT21CRCError
       else
         let humidity = (real_of_int (raw_humidity data) / 1048576) * 100;
             temperature = (real_of_int (raw_temperature data) / 1048576) * 200 - 50
         in succeed (temperature, humidity)))))) s"

text \<open>
  The retry loop \<^verbatim>\<open>for attempt in range(retries)\<close>. Falling off the end of the
  loop returns Python's \<^verbatim>\<open>None\<close>, modelled by \<open>None\<close>.
\<close>

function read_loop :: "int \<Rightarrow> int \<Rightarrow> (driver, (real \<times> real) option) prog" where
  "read_loop attempt retries s =
     (if attempt < retries then
        (case measure_once s of
           (Inr v, s') \<Rightarrow> (Inr (Some v), s')
         | (Inl e, s') \<Rightarrow>
             if e \<in> set [AHT21CRCError, AHT21TimeoutError] then
               (if attempt = retries - 1 then (Inl e, s')
                else read_loop (attempt + 1) retries (snd (sleep_ms 50 s')))
             else (Inl e, s'))
      else (Inr None, s))"
  by pat_completeness auto
termination
  by (relation "measure (\<lambda>(attempt, retries, s). nat (retries - attempt))") auto

definition read_temperature_humidity :: "int \<Rightarrow> (driver, (real \<times> real) option) prog" where
  "read_temperature_humidity retries = read_loop 0 retries"

section \<open>The ENS160 driver (ens160.py)\<close>

text \<open>The instance with its cached reading.\<close>

record ens160 = driver +
  aqi :: int
  tvoc :: int
  eco2 :: int
  validity_flag :: int

text \<open>
  \<^verbatim>\<open>struct.pack('<H', value)\<close> and \<^verbatim>\<open>struct.unpack('<H', b)[0]\<close>: 16 bits, low byte
  first. \<open>pack_u16le\<close> keeps the low 16 bits of its argument; \<open>unpack_u16le\<close> is only
  applied to buffers of two bytes (reads and slices of fixed length).
\<close>

definition pack_u16le :: "int \<Rightarrow> byte list" where
  "pack_u16le v = [word_of_int v, word_of_int (drop_bit 8 v)]"

definition unpack_u16le :: "byte list \<Rightarrow> int" where
  "unpack_u16le b = uint (b ! 0) + 256 * uint (b ! 1)"

text \<open>Python's \<^verbatim>\<open>int(x)\<close> on a float: the fractional part is dropped.\<close>

definition py_int :: "real \<Rightarrow> int" where
  "py_int x = (if 0 \<le> x then \<lfloor>x\<rfloor> else \<lceil>x\<rceil>)"

text \<open>
  The register helpers: one transparent retry after 10 ms on OSError, then
  ENS160CommunicationError.
\<close>

definition read_register :: "nat \<Rightarrow> (ens160, int) prog" where
  "read_register reg s =
     try_except
       (andthen (readfrom_mem (address s) reg 1) (\<lambda>bs. succeed (uint (bs ! 0))))
       [OSError]
       (\<lambda>e. andthen (sleep_ms 10) (\<lambda>u.
          try_except
            (andthen (readfrom_mem (address s) reg 1) (\<lambda>bs. succeed (uint (bs ! 0))))
            [OSError]
            (\<lambda>e. raise ENS160CommunicationError))) s"

definition read_registers :: "nat \<Rightarrow> nat \<Rightarrow> (ens160, byte list) prog" where
  "read_registers reg count s =
     try_except
       (readfrom_mem (address s) reg count)
       [OSError]
       (\<lambda>e. andthen (sleep_ms 10) (\<lambda>u.
          try_except
            (readfrom_mem (address s) reg count)
            [OSError]
            (\<lambda>e. raise ENS160CommunicationError))) s"

definition write_register :: "nat \<Rightarrow> byte \<Rightarrow> (ens160, unit) prog" where
  "write_register reg v s =
     try_except
       (writeto_mem (address s) reg [v])
       [OSError]
       (\<lambda>e. andthen (sleep_ms 10) (\<lambda>u.
          try_except
            (writeto_mem (address s) reg [v])
            [OSError]
            (\<lambda>e. raise ENS160CommunicationError))) s"

definition write_register_16 :: "nat \<Rightarrow> int \<Rightarrow> (ens160, unit) prog" where
  "write_register_16 reg v s =
     (let data = pack_u16le v in
      try_except
        (writeto_mem (address s) reg data)
        [OSError]
        (\<lambda>e. andthen (sleep_ms 10) (\<lambda>u.
           try_except
             (writeto_mem (address s) reg data)
             [OSError]
             (\<lambda>e. raise ENS160CommunicationError))) s)"

text \<open>
  \<^verbatim>\<open>ENS160.set_compensation\<close>. The float arguments are real numbers here; NaN and the
  infinities have no counterpart.
\<close>

definition set_compensation :: "real \<Rightarrow> real \<Rightarrow> (ens160, unit) prog" where
  "set_compensation temperature_c humidity_rh =
     (let temperature_c = max (-40) (min 85 temperature_c);
          humidity_rh = max 0 (min 100 humidity_rh);
          temp_value = py_int ((temperature_c + 273.15) * 64);
          rh_value = py_int (humidity_rh * 512)
      in andthen (write_register_16 0x13 temp_value) (\<lambda>u.
         write_register_16 0x15 rh_value))"

text \<open>\<^verbatim>\<open>ENS160.reset\<close>.\<close>

definition reset :: "(ens160, unit) prog" where
  "reset =
     andthen (write_register 0x10 0xF0) (\<lambda>u.
     andthen (sleep_ms 20) (\<lambda>u.
     andthen (write_register 0x10 0x01) (\<lambda>u.
     andthen (sleep_ms 10) (\<lambda>u.
     andthen (set_compensation 25 50) (\<lambda>u.
     andthen (write_register 0x10 0x02) (\<lambda>u.
     andthen (sleep_ms 10) (\<lambda>u.
     (\<lambda>s. (Inr (), s\<lparr>aqi := 0, tvoc := 0, eco2 := 400, validity_flag := 1\<rparr>)))))))))"

text \<open>
  \<^verbatim>\<open>ENS160.update\<close>. The method calls itself after a reading with validity 3. Every
  call that reaches the recursive call has taken at least one outcome from the script
  of the bus, which is finite, so the function is total.
\<close>

function update :: "(ens160, bool) prog" where
  "update s =
     (case read_register 0x20 s of
        (Inl e, s1) \<Rightarrow> (Inl e, s1)
      | (Inr status_byte, s1) \<Rightarrow>
          if status_byte AND 0x02 = 0 then (Inr False, s1)
          else
            (case read_registers 0x20 6 s1 of
               (Inl e, s2) \<Rightarrow> (Inl e, s2)
             | (Inr data, s2) \<Rightarrow>
                 let s3 = s2\<lparr>validity_flag := drop_bit 2 (uint (data ! 0)) AND 0x03\<rparr>;
                     s4 = s3\<lparr>aqi := uint (data ! 1) AND 0x07\<rparr>;
                     s5 = s4\<lparr>tvoc := unpack_u16le (take 2 (drop 2 data))\<rparr>;
                     s6 = s5\<lparr>eco2 := unpack_u16le (take 2 (drop 4 data))\<rparr>
                 in if validity_flag s6 = 3 then
                      (case reset s6 of
                         (Inl e, s7) \<Rightarrow> (Inl e, s7)
                       | (Inr u, s7) \<Rightarrow> update (snd (sleep_ms 200 s7)))
                    else (Inr (validity_flag s6 = 0), s6)))"
  by pat_completeness auto
termination
proof (relation "measure (\<lambda>s. length (script s))", goal_cases)
  case 1
  show ?case by simp
next
  case (2 s x s1 status_byte x2 s2 data s3 s4 s5 s6 x3 s7 u)
  have rd: "length (script t') \<le> length (script t) \<and> (isl x \<or> length (script t') < length (script t))"
    if "readfrom_mem a r n t = (x, t')" for a r n x and t t' :: ens160
    using that by (auto simp: readfrom_mem_def transfer_def split: list.splits reply.splits prod.splits)
  have wr_le: "length (script t') \<le> length (script t)"
    if "writeto_mem a r b t = (x, t')" for a r b x and t t' :: ens160
    using that by (auto simp: writeto_mem_def transfer_def split: list.splits reply.splits prod.splits)
  have sl: "script (snd (sleep_ms n t)) = script t" for n and t :: ens160
    by (simp add: sleep_ms_def)
  have r1: "length (script t') < length (script t)"
    if "read_register r t = (Inr v, t')" for r v and t t' :: ens160
    using that
    by (auto simp: read_register_def try_except_def andthen_def succeed_def raise_def sleep_ms_def
        split: prod.splits sum.splits if_splits dest!: rd)
  have rn: "length (script t') \<le> length (script t)"
    if "read_registers r n t = (x, t')" for r n x and t t' :: ens160
    using that
    by (auto simp: read_registers_def try_except_def andthen_def succeed_def raise_def sleep_ms_def
        split: prod.splits sum.splits if_splits dest!: rd)
  have w1: "length (script t') \<le> length (script t)"
    if "write_register r b t = (x, t')" for r b x and t t' :: ens160
    using that
    by (auto simp: write_register_def try_except_def andthen_def succeed_def raise_def sleep_ms_def
        split: prod.splits sum.splits if_splits dest!: wr_le)
  have w16: "length (script t') \<le> length (script t)"
    if "write_register_16 r b t = (x, t')" for r b x and t t' :: ens160
    using that
    by (auto simp: write_register_16_def Let_def try_except_def andthen_def succeed_def raise_def sleep_ms_def
        split: prod.splits sum.splits if_splits dest!: wr_le)
  have sc: "length (script t') \<le> length (script t)"
    if "set_compensation a b t = (x, t')" for a b x and t t' :: ens160
    using that
    by (auto simp: set_compensation_def Let_def andthen_def split: prod.splits sum.splits dest!: w16)
  have rs: "length (script t') \<le> length (script t)"
    if "reset t = (x, t')" for x and t t' :: ens160
    using that
    by (auto simp: reset_def andthen_def sleep_ms_def split: prod.splits sum.splits dest!: w1 sc)
  from 2 have e1: "read_register 0x20 s = (Inr status_byte, s1)"
    and e2: "read_registers 0x20 6 s1 = (Inr data, s2)"
    and e3: "reset s6 = (Inr u, s7)"
    and e4: "script s6 = script s2"
    by simp_all
  from r1[OF e1] rn[OF e2] rs[OF e3] e4 show ?case by (simp add: sl)
qed

text \<open>\<^verbatim>\<open>ENS160.__init__\<close>, with the convention of \<open>AHT21_init\<close> for the outcome.\<close>

definition ENS160_init :: "i2c \<Rightarrow> nat \<Rightarrow> (error + unit) \<times> ens160" where
  "ENS160_init bus addr =
     (let self = \<lparr>script = script bus, trace = trace bus, ticks = ticks bus, address = addr,
                   aqi = 0, tvoc = 0, eco2 = 400, validity_flag = 1\<rparr>
      in andthen
           (try_except
              (andthen (read_registers 0x00 2) (\<lambda>part_id_bytes.
                 let part_id = unpack_u16le part_id_bytes in
                 if part_id \<noteq> 0x0160 then raise ENS160InitError else succeed ()))
              [OSError]
              (\<lambda>e. raise ENS160InitError)) (\<lambda>u.
         andthen (write_register 0x10 0xF0) (\<lambda>u.
         andthen (sleep_ms 20) (\<lambda>u.
         andthen (write_register 0x10 0x01) (\<lambda>u.
         andthen (sleep_ms 10) (\<lambda>u.
         andthen (set_compensation 25 50) (\<lambda>u.
         andthen (write_register 0x10 0x02) (\<lambda>u.
         sleep_ms 10))))))) self)"

text \<open>The decimal digits of a byte value, as the f-string prints it.\<close>

fun decimal :: "nat \<Rightarrow> string" where
  "decimal n =
     (if n < 10 then [char_of (48 + n)] else decimal (n div 10) @ [char_of (48 + n mod 10)])"

text \<open>\<^verbatim>\<open>ENS160.get_firmware_version\<close>: the body of the \<^verbatim>\<open>try\<close> and the \<^verbatim>\<open>finally\<close> block.\<close>

definition get_firmware_version :: "(ens160, string) prog" where
  "get_firmware_version =
     (let current_mode = 0x02 in
      try_finally
        (andthen (write_register 0x10 0x01) (\<lambda>u.
         andthen (sleep_ms 10) (\<lambda>u.
         andthen (write_register 0x12 0x0E) (\<lambda>u.
         andthen (sleep_ms 10) (\<lambda>u.
         andthen (read_registers 0x48 8) (\<lambda>gpr_data.
           let major = unat (gpr_data ! 4);
               minor = unat (gpr_data ! 5);
               release = unat (gpr_data ! 6)
           in succeed (decimal major @ ''.'' @ decimal minor @ ''.'' @ decimal release)))))))
        (andthen (write_register 0x10 current_mode) (\<lambda>u.
         sleep_ms 10)))"

section \<open>Observations on a trace, and the buses of the examples\<close>









text \<open>An ENS160 with a cached reading and no new data (status 0x80).\<close>

definition quiet :: ens160 where
  "quiet = \<lparr>script = [(1, Ack [0x80])], trace = [], ticks = 0, address = 0x53,
            aqi = 2, tvoc = 120, eco2 = 650, validity_flag = 0\<rparr>"

text \<open>
  An ENS160 whose burst read reports validity 3 (Error) on the first two updates and
  validity 0 (Normal) on the third; every write is acknowledged.
\<close>

definition error_twice :: ens160 where
  "error_twice =
     \<lparr>script =
        [(0, Ack [0x0E]), (0, Ack [0x0E, 0x01, 0x00, 0x00, 0x90, 0x01]),
         (0, Ack []), (0, Ack []), (0, Ack []), (0, Ack []), (0, Ack []),
         (0, Ack [0x0E]), (0, Ack [0x0E, 0x01, 0x00, 0x00, 0x90, 0x01]),
         (0, Ack []), (0, Ack []), (0, Ack []), (0, Ack []), (0, Ack []),
         (0, Ack [0x02]), (0, Ack [0x02, 0x02, 0x10, 0x00, 0xF4, 0x01])],
      trace = [], ticks = 0, address = 0x53,
      aqi = 0, tvoc = 0, eco2 = 400, validity_flag = 1\<rparr>"

text \<open>A bus on which the device does not answer.\<close>

definition unreachable :: i2c where
  "unreachable = \<lparr>script = [(0, NoAck), (0, NoAck)], trace = [], ticks = 0\<rparr>"

text \<open>
  The writes to the operating-mode register (0x10) of the device at \<open>addr\<close> on a trace,
  in the order in which the driver issued them.
\<close>

definition opmode_writes :: "nat \<Rightarrow> event list \<Rightarrow> event list" where
  "opmode_writes addr tr =
     filter (\<lambda>e. case e of Writeto_mem a reg buf \<Rightarrow> a = addr \<and> reg = 0x10 | _ \<Rightarrow> False) tr"


text \<open>
  The attempts of a read of the AHT21 on a trace are its trigger commands
  (0xAC, 0x33, 0x00); the delays before a retry are its sleeps of 50 ms. The busy poll
  adds only status commands, status reads and sleeps of 5 ms.
\<close>

definition attempts :: "nat \<Rightarrow> event list \<Rightarrow> nat" where
  "attempts addr tr = count_list tr (Writeto addr [0xAC, 0x33, 0x00])"

definition retry_delays :: "event list \<Rightarrow> nat" where
  "retry_delays tr = count_list tr (Sleep_ms 50)"

definition polling :: "nat \<Rightarrow> event set" where
  "polling addr = {Writeto addr [0x71], Readfrom addr 1, Sleep_ms 5}"

text \<open>
  An AHT21 that delivers two frames with a wrong checksum and then a valid frame
  (humidity 0x80000, temperature 0x50000, checksum 0x84); before the third frame it is
  busy once.
\<close>

definition crc_twice :: driver where
  "crc_twice =
     \<lparr>script =
        [(1, Ack []), (1, Ack []), (1, Ack [0x1C]), (1, Ack [0x1C, 0x80, 0x00, 0x05, 0x00, 0x00, 0x00]),
         (1, Ack []), (1, Ack []), (1, Ack [0x1C]), (1, Ack [0x1C, 0x80, 0x00, 0x05, 0x00, 0x00, 0xFF]),
         (1, Ack []), (1, Ack []), (1, Ack [0x9C]), (1, Ack []), (1, Ack [0x1C]),
         (1, Ack [0x1C, 0x80, 0x00, 0x05, 0x00, 0x00, 0x84])],
      trace = [], ticks = 0, address = 0x38\<rparr>"

text \<open>
  What the busy poll leaves behind: the address is kept, the trace grows by polling
  events, and a poll that ends normally has taken, as its last two outcomes from the
  script, the acknowledged status command and a status byte with bit 7 clear.
\<close>

definition poll_result :: "driver \<Rightarrow> error + unit \<Rightarrow> driver \<Rightarrow> bool" where
  "poll_result s r s' =
     (address s' = address s
      \<and> (\<exists>new. trace s' = trace s @ new \<and> set new \<subseteq> polling (address s))
      \<and> (r = Inr () \<or> r = Inl OSError \<or> r = Inl AHT21TimeoutError)
      \<and> (r = Inr () \<longrightarrow>
            (\<exists>pre l1 b1 l2 b2. script s = pre @ (l1, Ack b1) # (l2, Ack b2) # script s'
               \<and> uint (take 1 (b2 @ [0]) ! 0) AND 0x80 = 0)))"

text \<open>
  What one attempt leaves behind: the address is kept, the trace grows by exactly one
  trigger command and by no retry delay, and an attempt that returns a pair has taken, as
  its last two outcomes from the script, a status byte with bit 7 clear and the frame
  whose checksum it accepted and from which the pair is computed.
\<close>

definition measured :: "driver \<Rightarrow> error + real \<times> real \<Rightarrow> driver \<Rightarrow> bool" where
  "measured s r s' =
     (address s' = address s
      \<and> (\<exists>new. trace s' = trace s @ new \<and> attempts (address s) new = 1 \<and> retry_delays new = 0)
      \<and> (case r of
            Inl e \<Rightarrow> e = OSError \<or> e = AHT21TimeoutError \<or> e = AHT21CRCError
          | Inr (temperature, humidity) \<Rightarrow>
              (\<exists>pre l1 status l2 frame data.
                  script s = pre @ (l1, Ack status) # (l2, Ack frame) # script s'
                  \<and> data = take 7 (frame @ replicate 7 0)
                  \<and> uint (take 1 (status @ [0]) ! 0) AND 0x80 = 0
                  \<and> calculate_crc8 (take 6 data) = uint (data ! 6)
                  \<and> humidity = real_of_int (raw_humidity data) / 1048576 * 100
                  \<and> temperature = real_of_int (raw_temperature data) / 1048576 * 200 - 50)))"

text \<open>The script of the second state is what the first state has left of its script.\<close>

definition consumed :: "driver \<Rightarrow> driver \<Rightarrow> bool" where
  "consumed s s' = (\<exists>pre. script s = pre @ script s')"

text \<open>
  What the device sees of a trace. The bus operations of a trace, in order, take the
  outcomes of the script one by one (a sleep takes none, and an operation after the
  end of the script is not acknowledged); \<open>acknowledged sc tr\<close> are the operations of
  \<open>tr\<close> that the script \<open>sc\<close> acknowledges, the only ones that reach the device.
\<close>

definition bus_events :: "event list \<Rightarrow> event list" where
  "bus_events tr = filter (\<lambda>e. case e of Sleep_ms n \<Rightarrow> False | _ \<Rightarrow> True) tr"

definition acknowledged :: "(nat \<times> reply) list \<Rightarrow> event list \<Rightarrow> event list" where
  "acknowledged sc tr = map fst (filter (\<lambda>(e, d, r). r \<noteq> NoAck) (zip (bus_events tr) sc))"

text \<open>
  A method of the ENS160 driver at address \<open>a\<close> that keeps the address, adds only
  events of \<open>E\<close> at the end of the trace, and takes one outcome of the script for each
  bus operation it adds.
\<close>

definition runs :: "nat \<Rightarrow> event set \<Rightarrow> (ens160, 'a) prog \<Rightarrow> bool" where
  "runs a E m =
     (\<forall>s r s'. address s = a \<and> m s = (r, s') \<longrightarrow>
        address s' = a
        \<and> (\<exists>new. trace s' = trace s @ new
              \<and> script s' = drop (length (bus_events new)) (script s)
              \<and> set new \<subseteq> E))"

text \<open>
  An ENS160 on a bus that acknowledges one operation and nothing after it; and one that
  acknowledges everything \<open>get_firmware_version\<close> does and delivers version 1.2.3.
\<close>

definition idle_only :: ens160 where
  "idle_only =
     \<lparr>script = [(1, Ack [])], trace = [], ticks = 0, address = 0x53,
      aqi = 0, tvoc = 0, eco2 = 400, validity_flag = 1\<rparr>"

definition versioned :: ens160 where
  "versioned =
     \<lparr>script = [(1, Ack []), (1, Ack []),
                (1, Ack [0x00, 0x00, 0x00, 0x00, 0x01, 0x02, 0x03, 0x00]), (1, Ack [])],
      trace = [], ticks = 0, address = 0x53,
      aqi = 0, tvoc = 0, eco2 = 400, validity_flag = 1\<rparr>"

declare read_loop.simps [simp del]
declare update.simps [simp del]
declare wait_while_busy.simps [simp del]

section \<open>The CRC-8 against its reference\<close>

lemma crc8_shift_reference:
  "word_of_int (crc8_shift c) = reference_shift (word_of_int c)"
proof -
  have "(c AND 0x80 \<noteq> 0) = bit c 7"
    using bit_iff_and_push_bit_not_eq_0 [of c 7] by simp
  then show ?thesis
    by (simp add: crc8_shift_def reference_shift_def bit_word_of_int_iff of_int_xor_eq
        of_int_push_bit)
qed

lemma crc8_shifts_reference:
  "word_of_int (crc8_shifts n c) = (reference_shift ^^ n) (word_of_int c)"
  by (induction n arbitrary: c) (simp_all add: crc8_shift_reference funpow_swap1)

lemma and_255_take_bit: "(k::int) AND 0xFF = take_bit 8 k"
  using take_bit_eq_mask [of 8 k] by (simp add: mask_eq_exp_minus_1)

lemma crc8_byte_reference: "crc8_byte (uint r) b = uint (reference_byte r b)"
proof -
  have "crc8_byte (uint r) b = uint (word_of_int (crc8_shifts 8 (uint r XOR uint b)) :: byte)"
    by (simp add: crc8_byte_def and_255_take_bit uint_word_of_int_eq)
  also have "(word_of_int (crc8_shifts 8 (uint r XOR uint b)) :: byte) = reference_byte r b"
    by (simp add: crc8_shifts_reference reference_byte_def of_int_xor_eq)
  finally show ?thesis .
qed

lemma foldl_crc8_byte_reference:
  "foldl crc8_byte (uint r) bs = uint (foldl reference_byte r bs)"
  by (induction bs arbitrary: r) (simp_all add: crc8_byte_reference)

lemma calculate_crc8_eq: "calculate_crc8 data = uint (reference_crc8 (take 6 data))"
  using foldl_crc8_byte_reference [of 255 "take 6 data"]
  by (simp add: calculate_crc8_def reference_crc8_def)

text \<open>
  Claim C5. \<open>calculate_crc8\<close> is a function of the first six bytes of its argument
  only: on six bytes followed by anything, its value is its value on the six bytes. The
  value lies between 0 and 255, and it is the reference CRC-8 (polynomial 0x31, initial
  value 0xFF, on an 8-bit register) of those six bytes, although the code lets the
  accumulator grow beyond 8 bits during the eight shifts of a byte.
\<close>

theorem calculate_crc8_reference:
  "calculate_crc8 data = uint (reference_crc8 (take 6 data))
   \<and> calculate_crc8 (b0 # b1 # b2 # b3 # b4 # b5 # rest) = calculate_crc8 [b0, b1, b2, b3, b4, b5]
   \<and> 0 \<le> calculate_crc8 data \<and> calculate_crc8 data < 256"
proof -
  have "uint (w :: byte) < 256" for w
    using uint_bounded [of w] by simp
  then show ?thesis
    by (simp add: calculate_crc8_eq)
qed

section \<open>Construction of the AHT21 driver\<close>

lemma writeto_step:
  fixes s :: driver
  assumes "writeto a buf s = (r, s')"
  shows "trace s' = trace s @ [Writeto a buf] \<and> address s' = address s
         \<and> (r = Inr () \<or> r = Inl OSError)"
  using assms
  by (auto simp: writeto_def transfer_def split: list.splits prod.splits reply.splits)

lemma readfrom_step:
  fixes s :: driver
  assumes "readfrom a n s = (r, s')"
  shows "trace s' = trace s @ [Readfrom a n] \<and> address s' = address s
         \<and> (\<not> isl r \<or> r = Inl OSError)"
  using assms
  by (auto simp: readfrom_def transfer_def split: list.splits prod.splits reply.splits)



lemma sleep_ms_step:
  fixes s :: driver
  shows "sleep_ms n s = (Inr (), s\<lparr>trace := trace s @ [Sleep_ms n], ticks := ticks s + n\<rparr>)"
  by (simp add: sleep_ms_def)



















section \<open>The ENS160 driver: update and construction\<close>

lemma transfer_cache:
  fixes s :: ens160
  assumes "transfer e s = (r, s')"
  shows "aqi s' = aqi s \<and> tvoc s' = tvoc s \<and> eco2 s' = eco2 s \<and> validity_flag s' = validity_flag s"
  using assms by (auto simp: transfer_def split: list.splits prod.splits)

lemma readfrom_mem_cache:
  fixes s :: ens160
  assumes "readfrom_mem a reg n s = (r, s')"
  shows "aqi s' = aqi s \<and> tvoc s' = tvoc s \<and> eco2 s' = eco2 s \<and> validity_flag s' = validity_flag s"
  using assms transfer_cache [of "Readfrom_mem a reg n" s]
  by (auto simp: readfrom_mem_def split: prod.splits reply.splits)

lemma read_register_cache:
  assumes "read_register reg s = (r, s')"
  shows "aqi s' = aqi s \<and> tvoc s' = tvoc s \<and> eco2 s' = eco2 s \<and> validity_flag s' = validity_flag s"
  using assms
  by (auto simp: read_register_def try_except_def andthen_def succeed_def raise_def sleep_ms_def
      split: prod.splits sum.splits if_splits dest!: readfrom_mem_cache)

text \<open>
  Claim C9. When the status byte read at the start of \<open>update\<close> has bit 1 (new data)
  clear, \<open>update\<close> returns False and the cached aqi, tvoc, eco2 and validity flag are
  the ones before the call.
\<close>

theorem update_without_new_data:
  assumes "read_register 0x20 s = (Inr status_byte, s1)" and "status_byte AND 0x02 = 0"
  shows "fst (update s) = Inr False
    \<and> aqi (snd (update s)) = aqi s \<and> tvoc (snd (update s)) = tvoc s
    \<and> eco2 (snd (update s)) = eco2 s \<and> validity_flag (snd (update s)) = validity_flag s"
proof -
  have "update s = (Inr False, s1)"
    using assms by (simp add: update.simps [of s])
  with read_register_cache [OF assms(1)] show ?thesis by simp
qed

theorem update_without_new_data_witness:
  "read_register 0x20 quiet = (Inr 0x80, quiet\<lparr>script := [], trace := [Readfrom_mem 0x53 0x20 1], ticks := 1\<rparr>)
   \<and> (0x80::int) AND 0x02 = 0
   \<and> fst (update quiet) = Inr False
   \<and> aqi (snd (update quiet)) = 2 \<and> tvoc (snd (update quiet)) = 120
   \<and> eco2 (snd (update quiet)) = 650 \<and> validity_flag (snd (update quiet)) = 0"
proof -
  have r: "read_register 0x20 quiet = (Inr 0x80, quiet\<lparr>script := [], trace := [Readfrom_mem 0x53 0x20 1], ticks := 1\<rparr>)"
    by (simp add: quiet_def read_register_def try_except_def andthen_def succeed_def readfrom_mem_def transfer_def)
  have b: "(0x80::int) AND 0x02 = 0" by simp
  from update_without_new_data [OF r b] r b show ?thesis by (simp add: quiet_def)
qed

text \<open>
  Claim C1, at the bus \<open>error_twice\<close>: the reading of the first update and the reading
  of the retry both have validity 3. The driver resets the device a second time and
  updates a third time: three burst reads and two resets are on the trace, and the call
  returns True with the reading of the third update.
\<close>

theorem update_error_twice:
  "fst (update error_twice) = Inr True
   \<and> count_list (trace (snd (update error_twice))) (Readfrom_mem 0x53 0x20 6) = 3
   \<and> count_list (trace (snd (update error_twice))) (Writeto_mem 0x53 0x10 [0xF0]) = 2
   \<and> aqi (snd (update error_twice)) = 2
   \<and> tvoc (snd (update error_twice)) = 16
   \<and> eco2 (snd (update error_twice)) = 500"
  by code_simp

text \<open>
  Claim C3, at a device that does not answer: both reads of the part identifier fail,
  the register helper raises ENS160CommunicationError, and the clause
  \<^verbatim>\<open>except OSError\<close> of the constructor does not catch it.
\<close>

theorem ENS160_init_unreachable:
  "fst (ENS160_init unreachable 0x53) = Inl ENS160CommunicationError
   \<and> trace (snd (ENS160_init unreachable 0x53))
       = [Readfrom_mem 0x53 0x00 2, Sleep_ms 10, Readfrom_mem 0x53 0x00 2]"
  by code_simp

section \<open>Acknowledged operations\<close>

lemma bus_events_append: "bus_events (t1 @ t2) = bus_events t1 @ bus_events t2"
  by (simp add: bus_events_def)

lemma zip_take_left: "zip xs (take (length xs) ys) = zip xs ys"
proof (induction xs arbitrary: ys)
  case Nil
  show ?case by simp
next
  case (Cons x xs)
  then show ?case by (cases ys) simp_all
qed

lemma acknowledged_append:
  "acknowledged sc (t1 @ t2)
     = acknowledged sc t1 @ acknowledged (drop (length (bus_events t1)) sc) t2"
  by (simp add: acknowledged_def bus_events_append zip_append1 zip_take_left)

lemma set_acknowledged: "set (acknowledged sc tr) \<subseteq> set tr"
proof -
  have "set (map fst (filter P (zip xs sc))) \<subseteq> set xs" for P and xs :: "event list"
    by (auto dest: set_zip_leftD)
  from this [of _ "bus_events tr"] show ?thesis
    by (auto simp: acknowledged_def bus_events_def)
qed

lemma runsD:
  assumes "runs a E m" and "address s = a" and "m s = (r, s')"
  obtains new where "address s' = a" and "trace s' = trace s @ new"
    and "script s' = drop (length (bus_events new)) (script s)" and "set new \<subseteq> E"
  using assms unfolding runs_def by blast

lemma runs_succeed: "runs a E (succeed x)"
  by (simp add: runs_def succeed_def bus_events_def)

lemma runs_raise: "runs a E (raise e)"
  by (simp add: runs_def raise_def bus_events_def)

lemma runs_sleep_ms: "Sleep_ms n \<in> E \<Longrightarrow> runs a E (sleep_ms n)"
  by (simp add: runs_def sleep_ms_def bus_events_def)

lemma runs_writeto_mem: "Writeto_mem b reg buf \<in> E \<Longrightarrow> runs a E (writeto_mem b reg buf)"
  unfolding runs_def
  by (auto simp: writeto_mem_def transfer_def bus_events_def
      split: list.splits prod.splits reply.splits)

lemma runs_readfrom_mem: "Readfrom_mem b reg n \<in> E \<Longrightarrow> runs a E (readfrom_mem b reg n)"
  unfolding runs_def
  by (auto simp: readfrom_mem_def transfer_def bus_events_def
      split: list.splits prod.splits reply.splits)

lemma runs_andthen:
  assumes "runs a E m" and "\<And>x. runs a E (f x)"
  shows "runs a E (andthen m f)"
  unfolding runs_def
proof (intro allI impI, elim conjE)
  fix s r s'
  assume a: "address s = a" and run: "andthen m f s = (r, s')"
  obtain r1 s1 where m: "m s = (r1, s1)" by (cases "m s")
  from runsD [OF assms(1) a m] obtain t1 where
    t1: "address s1 = a" "trace s1 = trace s @ t1"
      "script s1 = drop (length (bus_events t1)) (script s)" "set t1 \<subseteq> E" .
  show "address s' = a \<and> (\<exists>new. trace s' = trace s @ new
              \<and> script s' = drop (length (bus_events new)) (script s) \<and> set new \<subseteq> E)"
  proof (cases r1)
    case (Inl e)
    with run m have "s' = s1" by (simp add: andthen_def)
    with t1 show ?thesis by blast
  next
    case (Inr x)
    with run m have "f x s1 = (r, s')" by (simp add: andthen_def)
    from runsD [OF assms(2) t1(1) this] obtain t2 where
      t2: "address s' = a" "trace s' = trace s1 @ t2"
        "script s' = drop (length (bus_events t2)) (script s1)" "set t2 \<subseteq> E" .
    have "trace s' = trace s @ (t1 @ t2)" using t1(2) t2(2) by simp
    moreover have "script s' = drop (length (bus_events (t1 @ t2))) (script s)"
      using t1(3) t2(3) by (simp add: bus_events_append add.commute)
    moreover have "set (t1 @ t2) \<subseteq> E" using t1(4) t2(4) by simp
    ultimately show ?thesis using t2(1) by blast
  qed
qed

lemma runs_try_except:
  assumes "runs a E m" and "\<And>e. runs a E (h e)"
  shows "runs a E (try_except m caught h)"
  unfolding runs_def
proof (intro allI impI, elim conjE)
  fix s r s'
  assume a: "address s = a" and run: "try_except m caught h s = (r, s')"
  obtain r1 s1 where m: "m s = (r1, s1)" by (cases "m s")
  from runsD [OF assms(1) a m] obtain t1 where
    t1: "address s1 = a" "trace s1 = trace s @ t1"
      "script s1 = drop (length (bus_events t1)) (script s)" "set t1 \<subseteq> E" .
  show "address s' = a \<and> (\<exists>new. trace s' = trace s @ new
              \<and> script s' = drop (length (bus_events new)) (script s) \<and> set new \<subseteq> E)"
  proof (cases "\<exists>e. r1 = Inl e \<and> e \<in> set caught")
    case False
    with run m have "s' = s1"
      by (cases r1) (auto simp: try_except_def split: if_splits)
    with t1 show ?thesis by blast
  next
    case True
    then obtain e where "r1 = Inl e" "e \<in> set caught" by blast
    with run m have "h e s1 = (r, s')" by (simp add: try_except_def)
    from runsD [OF assms(2) t1(1) this] obtain t2 where
      t2: "address s' = a" "trace s' = trace s1 @ t2"
        "script s' = drop (length (bus_events t2)) (script s1)" "set t2 \<subseteq> E" .
    have "trace s' = trace s @ (t1 @ t2)" using t1(2) t2(2) by simp
    moreover have "script s' = drop (length (bus_events (t1 @ t2))) (script s)"
      using t1(3) t2(3) by (simp add: bus_events_append add.commute)
    moreover have "set (t1 @ t2) \<subseteq> E" using t1(4) t2(4) by simp
    ultimately show ?thesis using t2(1) by blast
  qed
qed

lemma runs_at:
  assumes "runs a E (m a)"
  shows "runs a E (\<lambda>s. m (address s) s)"
  using assms unfolding runs_def by auto

lemma runs_read_registers:
  assumes "Readfrom_mem a reg n \<in> E" and "Sleep_ms 10 \<in> E"
  shows "runs a E (read_registers reg n)"
proof -
  have "read_registers reg n = (\<lambda>s. (\<lambda>b. try_except
       (readfrom_mem b reg n)
       [OSError]
       (\<lambda>e. andthen (sleep_ms 10) (\<lambda>u.
          try_except
            (readfrom_mem b reg n)
            [OSError]
            (\<lambda>e. raise ENS160CommunicationError)))) (address s) s)"
    by (rule ext) (simp add: read_registers_def)
  moreover have "runs a E (\<lambda>s. (\<lambda>b. try_except
       (readfrom_mem b reg n)
       [OSError]
       (\<lambda>e. andthen (sleep_ms 10) (\<lambda>u.
          try_except
            (readfrom_mem b reg n)
            [OSError]
            (\<lambda>e. raise ENS160CommunicationError)))) (address s) s)"
    by (rule runs_at)
       (intro runs_try_except runs_andthen runs_readfrom_mem runs_sleep_ms runs_raise assms)
  ultimately show ?thesis by (simp only:)
qed


lemma writeto_mem_acknowledged:
  fixes s :: ens160
  assumes "writeto_mem a reg buf s = (r, s')"
  shows "address s' = address s \<and> trace s' = trace s @ [Writeto_mem a reg buf]
     \<and> script s' = drop 1 (script s)
     \<and> (r = Inr () \<and> acknowledged (script s) [Writeto_mem a reg buf] = [Writeto_mem a reg buf]
        \<or> r = Inl OSError \<and> acknowledged (script s) [Writeto_mem a reg buf] = [])"
  using assms
  by (auto simp: writeto_mem_def transfer_def acknowledged_def bus_events_def
      split: list.splits prod.splits reply.splits)

lemma retry_write:
  fixes s :: ens160
  assumes "try_except (writeto_mem a reg buf) [OSError]
             (\<lambda>e. andthen (sleep_ms 10) (\<lambda>u.
                try_except (writeto_mem a reg buf) [OSError]
                  (\<lambda>e. raise ENS160CommunicationError))) s = (r, s')"
  shows "address s' = address s
     \<and> (\<exists>new. trace s' = trace s @ new
           \<and> script s' = drop (length (bus_events new)) (script s)
           \<and> set new \<subseteq> {Writeto_mem a reg buf, Sleep_ms 10}
           \<and> Writeto_mem a reg buf \<in> set new
           \<and> (r = Inr () \<and> acknowledged (script s) new = [Writeto_mem a reg buf]
              \<or> r = Inl ENS160CommunicationError \<and> acknowledged (script s) new = []))"
proof -
  let ?W = "Writeto_mem a reg buf"
  obtain r1 s1 where w1: "writeto_mem a reg buf s = (r1, s1)"
    by (cases "writeto_mem a reg buf s")
  note st1 = writeto_mem_acknowledged [OF w1]
  show ?thesis
  proof (cases "r1 = Inl OSError")
    case False
    with st1 have r1: "r1 = Inr ()" by blast
    with assms w1 have e: "r = Inr ()" "s' = s1"
      by (simp_all add: try_except_def)
    have "trace s' = trace s @ [?W]"
      "script s' = drop (length (bus_events [?W])) (script s)"
      "set [?W] \<subseteq> {?W, Sleep_ms 10}" "?W \<in> set [?W]"
      "acknowledged (script s) [?W] = [?W]"
      using st1 r1 e by (simp_all add: bus_events_def)
    with e st1 show ?thesis by blast
  next
    case True
    let ?s2 = "s1\<lparr>trace := trace s1 @ [Sleep_ms 10], ticks := ticks s1 + 10\<rparr>"
    obtain r3 s3 where w3: "writeto_mem a reg buf ?s2 = (r3, s3)"
      by (cases "writeto_mem a reg buf ?s2")
    note st3 = writeto_mem_acknowledged [OF w3]
    from assms w1 True w3 have e: "s' = s3"
      "r = (if r3 = Inl OSError then Inl ENS160CommunicationError else r3)"
      by (auto simp: try_except_def andthen_def sleep_ms_def raise_def
          split: sum.splits if_splits)
    let ?new = "[?W] @ [Sleep_ms 10] @ [?W]"
    have a1: "acknowledged (script s) [?W] = []" using st1 True by simp
    have be: "bus_events [?W] = [?W]" "bus_events [Sleep_ms 10] = []"
      by (simp_all add: bus_events_def)
    have ack: "acknowledged (script s) ?new = acknowledged (drop 1 (script s)) [?W]"
      by (simp only: acknowledged_append a1 be)
         (simp add: acknowledged_def bus_events_def)
    have sc2: "script ?s2 = drop 1 (script s)" using st1 by simp
    have "trace s' = trace s @ ?new" using st1 st3 e by simp
    moreover have "script s' = drop (length (bus_events ?new)) (script s)"
      using st1 st3 e by (simp add: bus_events_def)
    moreover have "set ?new \<subseteq> {?W, Sleep_ms 10}" "?W \<in> set ?new" by simp_all
    moreover have "r = Inr () \<and> acknowledged (script s) ?new = [?W]
              \<or> r = Inl ENS160CommunicationError \<and> acknowledged (script s) ?new = []"
      using st3 e(2) unfolding ack sc2 by auto
    moreover have "address s' = address s" using st1 st3 e by simp
    ultimately show ?thesis by blast
  qed
qed

lemma write_register_acknowledged:
  assumes "write_register reg v s = (r, s')"
  shows "address s' = address s
     \<and> (\<exists>new. trace s' = trace s @ new
           \<and> script s' = drop (length (bus_events new)) (script s)
           \<and> set new \<subseteq> {Writeto_mem (address s) reg [v], Sleep_ms 10}
           \<and> Writeto_mem (address s) reg [v] \<in> set new
           \<and> (r = Inr () \<and> acknowledged (script s) new = [Writeto_mem (address s) reg [v]]
              \<or> r = Inl ENS160CommunicationError \<and> acknowledged (script s) new = []))"
  by (rule retry_write) (use assms in \<open>simp add: write_register_def\<close>)

lemma write_register_16_acknowledged_retry:
  assumes "write_register_16 reg v s = (r, s')"
  shows "address s' = address s
     \<and> (\<exists>new. trace s' = trace s @ new
           \<and> script s' = drop (length (bus_events new)) (script s)
           \<and> set new \<subseteq> {Writeto_mem (address s) reg (pack_u16le v), Sleep_ms 10}
           \<and> Writeto_mem (address s) reg (pack_u16le v) \<in> set new
           \<and> (r = Inr ()
                \<and> acknowledged (script s) new = [Writeto_mem (address s) reg (pack_u16le v)]
              \<or> r = Inl ENS160CommunicationError \<and> acknowledged (script s) new = []))"
  by (rule retry_write) (use assms in \<open>simp add: write_register_16_def Let_def\<close>)

lemma runs_write_register:
  assumes "Writeto_mem a reg [v] \<in> E" and "Sleep_ms 10 \<in> E"
  shows "runs a E (write_register reg v)"
  unfolding runs_def
proof (intro allI impI, elim conjE)
  fix s r s'
  assume a: "address s = a" and w: "write_register reg v s = (r, s')"
  from write_register_acknowledged [OF w] a assms
  show "address s' = a \<and> (\<exists>new. trace s' = trace s @ new
          \<and> script s' = drop (length (bus_events new)) (script s) \<and> set new \<subseteq> E)"
    by auto
qed


lemma opmode_writes_append:
  "opmode_writes a (t1 @ t2) = opmode_writes a t1 @ opmode_writes a t2"
  by (simp add: opmode_writes_def)

lemma set_opmode_writes: "set (opmode_writes a tr) \<subseteq> set tr"
  by (auto simp: opmode_writes_def)

section \<open>The compensation registers\<close>















section \<open>The firmware version and the operating mode\<close>

lemma restore_standard_acknowledged:
  assumes "andthen (write_register 0x10 0x02) (\<lambda>u. sleep_ms 10) s = (r, s')"
  shows "\<exists>new. trace s' = trace s @ new
     \<and> set new \<subseteq> {Writeto_mem (address s) 0x10 [0x02], Sleep_ms 10}
     \<and> Writeto_mem (address s) 0x10 [0x02] \<in> set new
     \<and> (r = Inr () \<and> acknowledged (script s) new = [Writeto_mem (address s) 0x10 [0x02]]
        \<or> r = Inl ENS160CommunicationError \<and> acknowledged (script s) new = [])"
proof -
  let ?W = "Writeto_mem (address s) 0x10 [0x02]"
  obtain r1 s1 where w: "write_register 0x10 0x02 s = (r1, s1)"
    by (cases "write_register 0x10 0x02 s")
  from write_register_acknowledged [OF w] obtain t1 where
    t1: "trace s1 = trace s @ t1" "set t1 \<subseteq> {?W, Sleep_ms 10}" "?W \<in> set t1"
      "r1 = Inr () \<and> acknowledged (script s) t1 = [?W]
       \<or> r1 = Inl ENS160CommunicationError \<and> acknowledged (script s) t1 = []"
    by blast
  show ?thesis
  proof (cases "r1 = Inr ()")
    case True
    with assms w have "r = Inr () \<and> trace s' = trace s1 @ [Sleep_ms 10]"
      by (auto simp: andthen_def sleep_ms_def)
    then have e: "r = Inr ()" "trace s' = trace s1 @ [Sleep_ms 10]" by simp_all
    have "acknowledged (script s) (t1 @ [Sleep_ms 10]) = acknowledged (script s) t1"
      by (simp add: acknowledged_append) (simp add: acknowledged_def bus_events_def)
    with t1 True e show ?thesis
      by (intro exI [of _ "t1 @ [Sleep_ms 10]"]) auto
  next
    case False
    with t1(4) have r1: "r1 = Inl ENS160CommunicationError" by blast
    with assms w have e: "r = Inl ENS160CommunicationError" "s' = s1"
      by (simp_all add: andthen_def)
    with t1 r1 show ?thesis
      by (intro exI [of _ t1]) auto
  qed
qed

lemma runs_version_body:
  "runs a {Writeto_mem a 0x10 [0x01], Writeto_mem a 0x12 [0x0E], Readfrom_mem a 0x48 8,
           Sleep_ms 10}
     (andthen (write_register 0x10 0x01) (\<lambda>u.
      andthen (sleep_ms 10) (\<lambda>u.
      andthen (write_register 0x12 0x0E) (\<lambda>u.
      andthen (sleep_ms 10) (\<lambda>u.
      andthen (read_registers 0x48 8) (\<lambda>gpr_data.
        succeed (decimal (unat (gpr_data ! 4)) @ ''.'' @ decimal (unat (gpr_data ! 5)) @ ''.''
                 @ decimal (unat (gpr_data ! 6)))))))))"
  by (intro runs_andthen runs_write_register runs_sleep_ms runs_read_registers runs_succeed)
     simp_all

text \<open>
  Claim C7, as amended. Whatever the bus does during \<open>get_firmware_version\<close>, and whether
  the call returns the version or raises (at the switch to Idle, at the command, at the
  read of the eight registers, or in the \<^verbatim>\<open>finally\<close> block itself), the driver has
  attempted a write to the operating-mode register during the call and the last such
  attempt carries Standard (0x02). The device sees only the acknowledged writes: if the
  write of Standard is acknowledged, at the first attempt or at the retry, it is the last
  mode write the device has taken; if it is not, the call raises
  ENS160CommunicationError and the only mode write the device can have taken is Idle. So
  a call that returns the version has left the device in Standard mode.
\<close>

theorem get_firmware_version_mode:
  "\<exists>new. trace (snd (get_firmware_version s)) = trace s @ new
     \<and> opmode_writes (address s) new \<noteq> []
     \<and> last (opmode_writes (address s) new) = Writeto_mem (address s) 0x10 [0x02]
     \<and> (Writeto_mem (address s) 0x10 [0x02] \<in> set (acknowledged (script s) new)
          \<longrightarrow> last (opmode_writes (address s) (acknowledged (script s) new))
                = Writeto_mem (address s) 0x10 [0x02])
     \<and> (Writeto_mem (address s) 0x10 [0x02] \<notin> set (acknowledged (script s) new)
          \<longrightarrow> fst (get_firmware_version s) = Inl ENS160CommunicationError
              \<and> set (opmode_writes (address s) (acknowledged (script s) new))
                  \<subseteq> {Writeto_mem (address s) 0x10 [0x01]})"
proof -
  let ?a = "address s"
  let ?W = "Writeto_mem ?a 0x10 [0x02]"
  let ?body = "andthen (write_register 0x10 0x01) (\<lambda>u.
      andthen (sleep_ms 10) (\<lambda>u.
      andthen (write_register 0x12 0x0E) (\<lambda>u.
      andthen (sleep_ms 10) (\<lambda>u.
      andthen (read_registers 0x48 8) (\<lambda>gpr_data.
        succeed (decimal (unat (gpr_data ! 4)) @ ''.'' @ decimal (unat (gpr_data ! 5)) @ ''.''
                 @ decimal (unat (gpr_data ! 6))))))))"
  let ?restore = "andthen (write_register 0x10 0x02) (\<lambda>u. sleep_ms 10)"
  have gfv: "get_firmware_version = try_finally ?body ?restore"
    by (simp add: get_firmware_version_def Let_def)
  obtain r1 s1 where b: "?body s = (r1, s1)" by (cases "?body s")
  obtain r2 s2 where c: "?restore s1 = (r2, s2)" by (cases "?restore s1")
  from runsD [OF runs_version_body refl b] obtain t1 where
    t1: "address s1 = ?a" "trace s1 = trace s @ t1"
      "script s1 = drop (length (bus_events t1)) (script s)"
      "set t1 \<subseteq> {Writeto_mem ?a 0x10 [0x01], Writeto_mem ?a 0x12 [0x0E],
                  Readfrom_mem ?a 0x48 8, Sleep_ms 10}" .
  from restore_standard_acknowledged [OF c] t1(1) obtain t2 where
    t2: "trace s2 = trace s1 @ t2" "set t2 \<subseteq> {?W, Sleep_ms 10}" "?W \<in> set t2"
      "r2 = Inr () \<and> acknowledged (script s1) t2 = [?W]
       \<or> r2 = Inl ENS160CommunicationError \<and> acknowledged (script s1) t2 = []"
    by auto
  have res: "snd (get_firmware_version s) = s2"
    "fst (get_firmware_version s) = (case r2 of Inl e \<Rightarrow> Inl e | Inr u \<Rightarrow> r1)"
    using b c by (simp_all add: gfv try_finally_def split: sum.splits)
  define ack1 where "ack1 = acknowledged (script s) t1"
  have ack: "acknowledged (script s) (t1 @ t2) = ack1 @ acknowledged (script s1) t2"
    by (simp add: acknowledged_append t1(3) ack1_def)
  have "set ack1 \<subseteq> set t1" unfolding ack1_def by (rule set_acknowledged)
  with t1(4) have s1: "set ack1 \<subseteq> {Writeto_mem ?a 0x10 [0x01], Writeto_mem ?a 0x12 [0x0E],
                  Readfrom_mem ?a 0x48 8, Sleep_ms 10}" by blast
  then have n1: "?W \<notin> set ack1" by auto
  have o1: "set (opmode_writes ?a ack1) \<subseteq> {Writeto_mem ?a 0x10 [0x01]}"
    using s1 by (auto simp: opmode_writes_def)
  have o2: "opmode_writes ?a t2 \<noteq> []" "last (opmode_writes ?a t2) = ?W"
  proof -
    have "set (opmode_writes ?a t2) \<subseteq> {?W}" "?W \<in> set (opmode_writes ?a t2)"
      using t2(2,3) by (auto simp: opmode_writes_def)
    then have ne: "opmode_writes ?a t2 \<noteq> []" by auto
    from last_in_set [OF ne] \<open>set (opmode_writes ?a t2) \<subseteq> {?W}\<close>
    have "last (opmode_writes ?a t2) = ?W" by blast
    with ne show "opmode_writes ?a t2 \<noteq> []" "last (opmode_writes ?a t2) = ?W"
      by simp_all
  qed
  have "trace (snd (get_firmware_version s)) = trace s @ (t1 @ t2)"
    using res(1) t1(2) t2(1) by simp
  moreover have "opmode_writes ?a (t1 @ t2) \<noteq> []"
    "last (opmode_writes ?a (t1 @ t2)) = ?W"
    using o2 by (simp_all add: opmode_writes_append)
  moreover have "?W \<in> set (acknowledged (script s) (t1 @ t2))
      \<longrightarrow> last (opmode_writes ?a (acknowledged (script s) (t1 @ t2))) = ?W"
  proof
    assume "?W \<in> set (acknowledged (script s) (t1 @ t2))"
    with n1 t2(4) have "acknowledged (script s1) t2 = [?W]"
      unfolding ack by auto
    then show "last (opmode_writes ?a (acknowledged (script s) (t1 @ t2))) = ?W"
      unfolding ack by (simp add: opmode_writes_append) (simp add: opmode_writes_def)
  qed
  moreover have "?W \<notin> set (acknowledged (script s) (t1 @ t2))
      \<longrightarrow> fst (get_firmware_version s) = Inl ENS160CommunicationError
          \<and> set (opmode_writes ?a (acknowledged (script s) (t1 @ t2)))
              \<subseteq> {Writeto_mem ?a 0x10 [0x01]}"
  proof
    assume "?W \<notin> set (acknowledged (script s) (t1 @ t2))"
    with t2(4) have e: "acknowledged (script s1) t2 = []" "r2 = Inl ENS160CommunicationError"
      unfolding ack by auto
    from e(2) res(2) have "fst (get_firmware_version s) = Inl ENS160CommunicationError"
      by simp
    moreover have "set (opmode_writes ?a (acknowledged (script s) (t1 @ t2)))
              \<subseteq> {Writeto_mem ?a 0x10 [0x01]}"
      unfolding ack e(1) using o1 by simp
    ultimately show "fst (get_firmware_version s) = Inl ENS160CommunicationError
          \<and> set (opmode_writes ?a (acknowledged (script s) (t1 @ t2)))
              \<subseteq> {Writeto_mem ?a 0x10 [0x01]}" ..
  qed
  ultimately show ?thesis by blast
qed

text \<open>
  On a bus that acknowledges everything the call returns the version, and the write of
  Standard is among the acknowledged operations.
\<close>

theorem get_firmware_version_mode_witness:
  "fst (get_firmware_version versioned) = Inr ''1.2.3''
   \<and> Writeto_mem 0x53 0x10 [0x02]
       \<in> set (acknowledged (script versioned) (trace (snd (get_firmware_version versioned))))
   \<and> last (opmode_writes 0x53
        (acknowledged (script versioned) (trace (snd (get_firmware_version versioned)))))
       = Writeto_mem 0x53 0x10 [0x02]"
proof -
  have a: "address versioned = 0x53" "trace versioned = []"
    by (simp_all add: versioned_def)
  have r: "fst (get_firmware_version versioned) = Inr ''1.2.3''"
    by code_simp
  have m: "Writeto_mem 0x53 0x10 [0x02]
       \<in> set (acknowledged (script versioned) (trace (snd (get_firmware_version versioned))))"
    by code_simp
  from get_firmware_version_mode [of versioned] obtain new where
    n: "trace (snd (get_firmware_version versioned)) = trace versioned @ new"
      "Writeto_mem (address versioned) 0x10 [0x02] \<in> set (acknowledged (script versioned) new)
          \<longrightarrow> last (opmode_writes (address versioned) (acknowledged (script versioned) new))
                = Writeto_mem (address versioned) 0x10 [0x02]"
    by blast
  from n(1) have "new = trace (snd (get_firmware_version versioned))"
    by (simp add: a)
  with n(2) m have "last (opmode_writes 0x53
        (acknowledged (script versioned) (trace (snd (get_firmware_version versioned)))))
       = Writeto_mem 0x53 0x10 [0x02]"
    by (simp add: a)
  with r m show ?thesis by simp
qed

text \<open>
  Claim C7 as stated fails on a bus that acknowledges the switch to Idle and nothing
  after it: the last mode write the driver attempts is Standard, yet the only mode write
  the device has taken is Idle, and the call raises ENS160CommunicationError.
\<close>

theorem get_firmware_version_left_in_idle:
  "fst (get_firmware_version idle_only) = Inl ENS160CommunicationError
   \<and> last (opmode_writes 0x53 (trace (snd (get_firmware_version idle_only))))
       = Writeto_mem 0x53 0x10 [0x02]
   \<and> opmode_writes 0x53
       (acknowledged (script idle_only) (trace (snd (get_firmware_version idle_only))))
       = [Writeto_mem 0x53 0x10 [0x01]]"
  by code_simp

section \<open>Reading the AHT21\<close>

text \<open>
  Claim C10. With \<open>retries \<le> 0\<close> the loop body never runs: the call returns None and
  the bus, the trace and the clock are untouched.
\<close>

theorem read_without_attempts:
  "retries \<le> 0 \<Longrightarrow> read_temperature_humidity retries s = (Inr None, s)"
  by (simp add: read_temperature_humidity_def read_loop.simps [of 0 retries s])

theorem read_without_attempts_witness:
  "(-1::int) \<le> 0
   \<and> read_temperature_humidity (-1) \<lparr>script = [(0, Ack [])], trace = [], ticks = 0, address = 0x38\<rparr>
       = (Inr None, \<lparr>script = [(0, Ack [])], trace = [], ticks = 0, address = 0x38\<rparr>)"
  using read_without_attempts [of "-1" "\<lparr>script = [(0, Ack [])], trace = [], ticks = 0, address = 0x38\<rparr>"]
  by simp

section \<open>One measurement of the AHT21\<close>

lemma writeto_script:
  fixes s :: driver
  assumes "writeto a buf s = (r, s')"
  shows "ticks s \<le> ticks s'
     \<and> (case r of Inl e \<Rightarrow> e = OSError \<and> (\<exists>pre. script s = pre @ script s')
                  | Inr u \<Rightarrow> (\<exists>l b. script s = (l, Ack b) # script s'))"
  using assms
  by (auto simp: writeto_def transfer_def split: list.splits prod.splits reply.splits)

lemma readfrom_script:
  fixes s :: driver
  assumes "readfrom a n s = (r, s')"
  shows "ticks s \<le> ticks s'
     \<and> (case r of Inl e \<Rightarrow> e = OSError \<and> (\<exists>pre. script s = pre @ script s')
                  | Inr data \<Rightarrow> (\<exists>l b. script s = (l, Ack b) # script s'
                                        \<and> data = take n (b @ replicate n 0)))"
  using assms
  by (auto simp: readfrom_def transfer_def split: list.splits prod.splits reply.splits)

lemma is_busy_step:
  assumes "is_busy s = (r, s')"
  shows "address s' = address s \<and> ticks s \<le> ticks s'
     \<and> (\<exists>new. trace s' = trace s @ new \<and> set new \<subseteq> polling (address s))
     \<and> (case r of
           Inl e \<Rightarrow> e = OSError \<and> (\<exists>pre. script s = pre @ script s')
         | Inr busy \<Rightarrow>
             (\<exists>l1 b1 l2 b2. script s = (l1, Ack b1) # (l2, Ack b2) # script s'
                \<and> busy = (uint (take 1 (b2 @ [0]) ! 0) AND 0x80 \<noteq> 0)))"
proof -
  obtain r1 s1 where w: "writeto (address s) [0x71] s = (r1, s1)"
    by (cases "writeto (address s) [0x71] s")
  note w1 = writeto_step [OF w] and w2 = writeto_script [OF w]
  show ?thesis
  proof (cases r1)
    case (Inl e)
    with assms w w1 w2 show ?thesis
      by (auto simp: is_busy_def read_status_def andthen_def polling_def)
  next
    case (Inr u)
    obtain r2 s2 where rd: "readfrom (address s) 1 s1 = (r2, s2)"
      by (cases "readfrom (address s) 1 s1")
    note r1' = readfrom_step [OF rd] and r2' = readfrom_script [OF rd]
    show ?thesis
    proof (cases r2)
      case (Inl e)
      with assms w Inr rd w1 w2 r1' r2' show ?thesis
        by (auto simp: is_busy_def read_status_def andthen_def polling_def)
    next
      case (Inr data)
      with assms w \<open>r1 = Inr u\<close> rd w1 w2 r1' r2' show ?thesis
        by (auto simp: is_busy_def read_status_def andthen_def succeed_def polling_def)
    qed
  qed
qed

lemma wait_while_busy_step:
  "wait_while_busy start_time s = (r, s') \<Longrightarrow> poll_result s r s'"
proof (induction start_time s arbitrary: r s' rule: wait_while_busy.induct)
  case (1 start_time s)
  obtain r1 s1 where b: "is_busy s = (r1, s1)" by (cases "is_busy s")
  note st = is_busy_step [OF b]
  show ?case
  proof (cases r1)
    case (Inl e)
    with "1.prems" b st show ?thesis
      by (auto simp: wait_while_busy.simps [of start_time s] poll_result_def)
  next
    case (Inr busy)
    show ?thesis
    proof (cases busy)
      case False
      with "1.prems" b Inr have "r = Inr ()" "s' = s1"
        by (auto simp: wait_while_busy.simps [of start_time s])
      moreover from st Inr False obtain l1 b1 l2 b2 where
        "script s = [] @ (l1, Ack b1) # (l2, Ack b2) # script s1"
        "uint (take 1 (b2 @ [0]) ! 0) AND 0x80 = 0"
        by auto
      ultimately show ?thesis
        using st unfolding poll_result_def by blast
    next
      case True
      show ?thesis
      proof (cases "ticks_diff (int (ticks s1)) start_time > 150")
        case over: True
        with "1.prems" b Inr \<open>busy\<close> have "r = Inl AHT21TimeoutError" "s' = s1"
          by (auto simp: wait_while_busy.simps [of start_time s])
        with st show ?thesis by (auto simp: poll_result_def)
      next
        case under: False
        let ?s2 = "snd (sleep_ms 5 s1)"
        from "1.prems" b Inr \<open>busy\<close> under have rec: "wait_while_busy start_time ?s2 = (r, s')"
          by (auto simp: wait_while_busy.simps [of start_time s])
        from "1.IH" [OF b [symmetric] Inr \<open>busy\<close> under rec]
        have ih: "poll_result ?s2 r s'" .
        from st Inr obtain l1 b1 l2 b2 where
          sc: "script s = [(l1, Ack b1), (l2, Ack b2)] @ script ?s2"
          by (auto simp: sleep_ms_def)
        from st obtain t1 where
          t1: "trace ?s2 = trace s @ (t1 @ [Sleep_ms 5])" "set t1 \<subseteq> polling (address s)"
            "address ?s2 = address s"
          by (auto simp: sleep_ms_def)
        from ih t1 obtain t2 where
          t2: "trace s' = trace s @ ((t1 @ [Sleep_ms 5]) @ t2)" "set t2 \<subseteq> polling (address s)"
          by (auto simp: poll_result_def)
        have "set ((t1 @ [Sleep_ms 5]) @ t2) \<subseteq> polling (address s)"
          using t1(2) t2(2) by (auto simp: polling_def)
        with t2(1) have tr: "\<exists>new. trace s' = trace s @ new \<and> set new \<subseteq> polling (address s)"
          by blast
        from ih t1(3) have ad: "address s' = address s"
          and res: "r = Inr () \<or> r = Inl OSError \<or> r = Inl AHT21TimeoutError"
          by (simp_all add: poll_result_def)
        have "\<exists>pre l1 b1 l2 b2. script s = pre @ (l1, Ack b1) # (l2, Ack b2) # script s'
               \<and> uint (take 1 (b2 @ [0]) ! 0) AND 0x80 = 0" if "r = Inr ()"
        proof -
          from ih that obtain pre l1' b1' l2' b2' where
            "script ?s2 = pre @ (l1', Ack b1') # (l2', Ack b2') # script s'"
            "uint (take 1 (b2' @ [0]) ! 0) AND 0x80 = 0"
            by (auto simp: poll_result_def)
          with sc have "script s = ([(l1, Ack b1), (l2, Ack b2)] @ pre)
              @ (l1', Ack b1') # (l2', Ack b2') # script s'"
            by simp
          with \<open>uint (take 1 (b2' @ [0]) ! 0) AND 0x80 = 0\<close> show ?thesis by blast
        qed
        with tr ad res show ?thesis
          unfolding poll_result_def by simp
      qed
    qed
  qed
qed

lemma or_push_bit_add:
  fixes x y :: int
  assumes "0 \<le> x" and "x < 2 ^ n"
  shows "x OR push_bit n y = x + push_bit n y"
proof -
  have "take_bit n x = x"
    using assms by (simp add: take_bit_int_eq_self)
  then show ?thesis
    using concat_bit_eq [of n x y] by (simp add: concat_bit_def)
qed

lemma uint_byte_range: "0 \<le> uint (b :: byte) \<and> uint b < 256"
  using uint_bounded [of b] by simp

lemma raw_humidity_value:
  "raw_humidity data
     = uint (data ! 1) * 4096 + uint (data ! 2) * 16 + uint (data ! 3) div 16"
proof -
  define a where "a = uint (data ! 1)"
  define b where "b = uint (data ! 2)"
  define c where "c = uint (data ! 3)"
  have rb: "0 \<le> b \<and> b < 256" and rc: "0 \<le> c \<and> c < 256"
    unfolding b_def c_def by (rule uint_byte_range)+
  define x where "x = c div 16"
  have x: "0 \<le> x" "x < 2 ^ 4" using rc by (auto simp: x_def)
  have xb: "x OR push_bit 4 b = x + b * 16"
    unfolding or_push_bit_add [OF x] by (simp add: push_bit_eq_mult)
  have y: "0 \<le> x + b * 16" "x + b * 16 < 2 ^ 12" using x rb by auto
  have "(x OR push_bit 4 b) OR push_bit 12 a = (x + b * 16) OR push_bit 12 a"
    by (simp only: xb)
  also have "\<dots> = (x + b * 16) + push_bit 12 a"
    by (rule or_push_bit_add [OF y])
  also have "\<dots> = x + b * 16 + a * 4096"
    by (simp add: push_bit_eq_mult)
  finally have "(x OR push_bit 4 b) OR push_bit 12 a = x + b * 16 + a * 4096" .
  moreover have "raw_humidity data = (x OR push_bit 4 b) OR push_bit 12 a"
    by (simp add: raw_humidity_def a_def b_def c_def x_def drop_bit_eq_div ac_simps)
  ultimately show ?thesis by (simp add: a_def b_def c_def x_def)
qed

lemma raw_temperature_value:
  "raw_temperature data
     = (uint (data ! 3) mod 16) * 65536 + uint (data ! 4) * 256 + uint (data ! 5)"
proof -
  define a where "a = uint (data ! 3) AND 0x0F"
  define b where "b = uint (data ! 4)"
  define c where "c = uint (data ! 5)"
  have rb: "0 \<le> b \<and> b < 256" and rc: "0 \<le> c \<and> c < 256"
    unfolding b_def c_def by (rule uint_byte_range)+
  have a: "a = uint (data ! 3) mod 16"
    using take_bit_eq_mask [of 4 "uint (data ! 3)"]
    by (simp add: a_def mask_eq_exp_minus_1 take_bit_eq_mod)
  have c: "0 \<le> c" "c < 2 ^ 8" using rc by auto
  have cb: "c OR push_bit 8 b = c + b * 256"
    unfolding or_push_bit_add [OF c] by (simp add: push_bit_eq_mult)
  have y: "0 \<le> c + b * 256" "c + b * 256 < 2 ^ 16" using c rb by auto
  have "(c OR push_bit 8 b) OR push_bit 16 a = (c + b * 256) OR push_bit 16 a"
    by (simp only: cb)
  also have "\<dots> = (c + b * 256) + push_bit 16 a"
    by (rule or_push_bit_add [OF y])
  also have "\<dots> = c + b * 256 + a * 65536"
    by (simp add: push_bit_eq_mult)
  finally have "(c OR push_bit 8 b) OR push_bit 16 a = c + b * 256 + a * 65536" .
  moreover have "raw_temperature data = (c OR push_bit 8 b) OR push_bit 16 a"
    by (simp add: raw_temperature_def a_def b_def c_def ac_simps)
  ultimately show ?thesis by (simp add: a b_def c_def)
qed

lemma raw_values_20_bits:
  "0 \<le> raw_humidity data \<and> raw_humidity data < 1048576
   \<and> 0 \<le> raw_temperature data \<and> raw_temperature data < 1048576"
proof -
  have r1: "0 \<le> uint (data ! 1) \<and> uint (data ! 1) < 256"
    and r2: "0 \<le> uint (data ! 2) \<and> uint (data ! 2) < 256"
    and r3: "0 \<le> uint (data ! 3) \<and> uint (data ! 3) < 256"
    and r4: "0 \<le> uint (data ! 4) \<and> uint (data ! 4) < 256"
    and r5: "0 \<le> uint (data ! 5) \<and> uint (data ! 5) < 256"
    by (rule uint_byte_range)+
  have "0 \<le> uint (data ! 3) div 16" "uint (data ! 3) div 16 < 16"
    "0 \<le> uint (data ! 3) mod 16" "uint (data ! 3) mod 16 < 16"
    using r3 by (simp_all add: pos_imp_zdiv_nonneg_iff)
  with r1 r2 r4 r5 show ?thesis
    unfolding raw_humidity_value raw_temperature_value by auto
qed

lemma polling_counts:
  assumes "set new \<subseteq> polling a"
  shows "attempts a new = 0" and "retry_delays new = 0"
  using assms by (auto simp: attempts_def retry_delays_def polling_def count_list_0_iff)

lemma measure_once_step: "measure_once s = (r, s') \<Longrightarrow> measured s r s'"
proof -
  assume m: "measure_once s = (r, s')"
  let ?a = "address s"
  let ?trigger = "Writeto ?a [0xAC, 0x33, 0x00]"
  obtain r1 s1 where w: "writeto ?a [0xAC, 0x33, 0x00] s = (r1, s1)"
    by (cases "writeto ?a [0xAC, 0x33, 0x00] s")
  note w1 = writeto_step [OF w] and w2 = writeto_script [OF w]
  show ?thesis
  proof (cases r1)
    case (Inl e)
    with m w w1 have "r = Inl OSError" "trace s' = trace s @ [?trigger]" "address s' = address s"
      by (auto simp: measure_once_def andthen_def)
    then show ?thesis
      by (auto simp: measured_def attempts_def retry_delays_def)
  next
    case (Inr u)
    let ?s2 = "s1\<lparr>trace := trace s1 @ [Sleep_ms 80], ticks := ticks s1 + 80\<rparr>"
    obtain r3 s3 where p: "wait_while_busy (int (ticks ?s2)) ?s2 = (r3, s3)"
      by (cases "wait_while_busy (int (ticks ?s2)) ?s2")
    from wait_while_busy_step [OF p] w1 obtain t3 where
      p3: "address s3 = ?a" "trace s3 = trace s @ ([?trigger, Sleep_ms 80] @ t3)"
        "set t3 \<subseteq> polling ?a"
        "r3 = Inr () \<or> r3 = Inl OSError \<or> r3 = Inl AHT21TimeoutError"
      by (auto simp: poll_result_def)
    have c3: "attempts ?a ([?trigger, Sleep_ms 80] @ t3) = 1"
      "retry_delays ([?trigger, Sleep_ms 80] @ t3) = 0"
      using polling_counts [OF p3(3)] by (simp_all add: attempts_def retry_delays_def)
    from m w Inr p have m3:
      "r = (case r3 of Inl e \<Rightarrow> Inl e | Inr u \<Rightarrow> r) \<and> (isl r3 \<longrightarrow> s' = s3)"
      by (auto simp: measure_once_def andthen_def sleep_ms_def ticks_ms_def split: sum.splits)
    show ?thesis
    proof (cases r3)
      case (Inl e)
      with m3 p3 c3 show ?thesis
        unfolding measured_def by auto
    next
      case ok: (Inr u3)
      obtain r4 s4 where rd: "readfrom ?a 7 s3 = (r4, s4)"
        by (cases "readfrom ?a 7 s3")
      note rd1 = readfrom_step [OF rd] and rd2 = readfrom_script [OF rd]
      from rd1 p3 have p4: "address s4 = ?a"
        "trace s4 = trace s @ (([?trigger, Sleep_ms 80] @ t3) @ [Readfrom ?a 7])"
        by auto
      have c4: "attempts ?a (([?trigger, Sleep_ms 80] @ t3) @ [Readfrom ?a 7]) = 1"
        "retry_delays (([?trigger, Sleep_ms 80] @ t3) @ [Readfrom ?a 7]) = 0"
        using polling_counts [OF p3(3)] by (simp_all add: attempts_def retry_delays_def)
      from m w Inr p ok rd have m4: "s' = s4"
        by (auto simp: measure_once_def andthen_def sleep_ms_def ticks_ms_def Let_def
            raise_def succeed_def split: sum.splits if_splits)
      show ?thesis
      proof (cases r4)
        case (Inl e)
        with m w Inr p ok rd rd2 have "r = Inl OSError"
          by (auto simp: measure_once_def andthen_def sleep_ms_def ticks_ms_def)
        with m4 p4 c4 show ?thesis
          unfolding measured_def by auto
      next
        case frame: (Inr data)
        show ?thesis
        proof (cases "calculate_crc8 (take 6 data) \<noteq> uint (data ! 6)")
          case True
          with m w Inr p ok rd frame have "r = Inl AHT21CRCError"
            by (auto simp: measure_once_def andthen_def sleep_ms_def ticks_ms_def Let_def
                raise_def)
          with m4 p4 c4 show ?thesis
            unfolding measured_def by auto
        next
          case False
          with m w Inr p ok rd frame have res:
            "r = Inr (real_of_int (raw_temperature data) / 1048576 * 200 - 50,
                      real_of_int (raw_humidity data) / 1048576 * 100)"
            by (auto simp: measure_once_def andthen_def sleep_ms_def ticks_ms_def Let_def
                succeed_def)
          from wait_while_busy_step [OF p] ok obtain pre l1 b1 l2 status where
            sc3: "script ?s2 = pre @ (l1, Ack b1) # (l2, Ack status) # script s3"
              "uint (take 1 (status @ [0]) ! 0) AND 0x80 = 0"
            by (auto simp: poll_result_def)
          from w2 Inr obtain l0 b0 where sc1: "script s = (l0, Ack b0) # script s1"
            by auto
          from rd2 frame obtain l4 b4 where
            sc4: "script s3 = (l4, Ack b4) # script s4" "data = take 7 (b4 @ replicate 7 0)"
            by auto
          have "script s = ((l0, Ack b0) # pre @ [(l1, Ack b1)])
                @ (l2, Ack status) # (l4, Ack b4) # script s4"
            using sc1 sc3(1) sc4(1) by simp
          with sc3(2) sc4(2) False have
            "\<exists>pre l1 status l2 frame d.
                script s = pre @ (l1, Ack status) # (l2, Ack frame) # script s4
                \<and> d = take 7 (frame @ replicate 7 0)
                \<and> uint (take 1 (status @ [0]) ! 0) AND 0x80 = 0
                \<and> calculate_crc8 (take 6 d) = uint (d ! 6)
                \<and> real_of_int (raw_humidity data) / 1048576 * 100
                    = real_of_int (raw_humidity d) / 1048576 * 100
                \<and> real_of_int (raw_temperature data) / 1048576 * 200 - 50
                    = real_of_int (raw_temperature d) / 1048576 * 200 - 50"
            by blast
          with res m4 p4 c4 show ?thesis
            unfolding measured_def by (simp only: sum.case prod.case) blast
        qed
      qed
    qed
  qed
qed

lemma consumed_refl: "consumed s s"
  by (simp add: consumed_def)

lemma consumed_trans: "consumed s s1 \<Longrightarrow> consumed s1 s2 \<Longrightarrow> consumed s s2"
  by (auto simp: consumed_def)

lemma consumed_same_script: "script s1 = script s \<Longrightarrow> consumed s s1"
  by (simp add: consumed_def)

lemma transfer_consumed:
  fixes s :: driver
  shows "transfer e s = (r, s') \<Longrightarrow> consumed s s'"
  by (cases "script s") (auto simp: transfer_def consumed_def split: prod.splits)

lemma writeto_consumed:
  fixes s :: driver
  shows "writeto a buf s = (r, s') \<Longrightarrow> consumed s s'"
  by (auto simp: writeto_def split: prod.splits reply.splits dest: transfer_consumed)

lemma readfrom_consumed:
  fixes s :: driver
  shows "readfrom a n s = (r, s') \<Longrightarrow> consumed s s'"
  by (auto simp: readfrom_def split: prod.splits reply.splits dest: transfer_consumed)

lemma is_busy_consumed: "is_busy s = (r, s') \<Longrightarrow> consumed s s'"
  by (auto simp: is_busy_def read_status_def andthen_def succeed_def
      split: prod.splits sum.splits
      dest!: writeto_consumed readfrom_consumed intro: consumed_trans)

lemma wait_while_busy_consumed:
  "wait_while_busy start_time s = (r, s') \<Longrightarrow> consumed s s'"
proof (induction start_time s arbitrary: r s' rule: wait_while_busy.induct)
  case (1 start_time s)
  obtain r1 s1 where b: "is_busy s = (r1, s1)" by (cases "is_busy s")
  note c1 = is_busy_consumed [OF b]
  show ?case
  proof (cases "\<exists>busy. r1 = Inr busy \<and> busy
                  \<and> \<not> ticks_diff (int (ticks s1)) start_time > 150")
    case False
    with "1.prems" b have "s' = s1"
      by (auto simp: wait_while_busy.simps [of start_time s] split: sum.splits if_splits)
    with c1 show ?thesis by simp
  next
    case True
    then obtain busy where t: "r1 = Inr busy" "busy"
      "\<not> ticks_diff (int (ticks s1)) start_time > 150" by blast
    with "1.prems" b have rec: "wait_while_busy start_time (snd (sleep_ms 5 s1)) = (r, s')"
      by (auto simp: wait_while_busy.simps [of start_time s])
    from "1.IH" [OF b [symmetric] t rec] have "consumed (snd (sleep_ms 5 s1)) s'" .
    moreover have "consumed s1 (snd (sleep_ms 5 s1))"
      by (rule consumed_same_script) (simp add: sleep_ms_def)
    ultimately show ?thesis using c1 by (blast intro: consumed_trans)
  qed
qed

lemma measure_once_consumed: "measure_once s = (r, s') \<Longrightarrow> consumed s s'"
proof -
  assume m: "measure_once s = (r, s')"
  obtain r1 s1 where w: "writeto (address s) [0xAC, 0x33, 0x00] s = (r1, s1)"
    by (cases "writeto (address s) [0xAC, 0x33, 0x00] s")
  note c1 = writeto_consumed [OF w]
  let ?s2 = "s1\<lparr>trace := trace s1 @ [Sleep_ms 80], ticks := ticks s1 + 80\<rparr>"
  have c2: "consumed s1 ?s2" by (rule consumed_same_script) simp
  obtain r3 s3 where p: "wait_while_busy (int (ticks ?s2)) ?s2 = (r3, s3)"
    by (cases "wait_while_busy (int (ticks ?s2)) ?s2")
  note c3 = wait_while_busy_consumed [OF p]
  obtain r4 s4 where rd: "readfrom (address s) 7 s3 = (r4, s4)"
    by (cases "readfrom (address s) 7 s3")
  note c4 = readfrom_consumed [OF rd]
  from m w p rd have "s' = s1 \<or> s' = s3 \<or> s' = s4"
    by (auto simp: measure_once_def andthen_def sleep_ms_def ticks_ms_def Let_def
        raise_def succeed_def split: sum.splits if_splits)
  with c1 c2 c3 c4 show ?thesis by (blast intro: consumed_trans)
qed

end
